theory Spec2Isabelle
  imports Complex_Main "HOL-Library.AList"
begin

section \<open>Citation service: data model\<close>

text \<open>
  The embedding follows \<^verbatim>\<open>app/services/citation_service.py\<close> and the two tables it
  reads (\<^verbatim>\<open>app/db/models.py\<close>: \<^verbatim>\<open>Paper\<close>, \<^verbatim>\<open>Citation\<close>).

  Paper identifiers are the canonical strings of the UUIDs, so \<^verbatim>\<open>UUID(s)\<close> and \<^verbatim>\<open>str(u)\<close>
  are the identity on them. Python's \<^verbatim>\<open>int\<close> is \<^typ>\<open>int\<close>; a \<^verbatim>\<open>float\<close> is read as the
  \<^typ>\<open>real\<close> it stands for (exact arithmetic, no rounding); a nullable column is an
  \<^typ>\<open>'a option\<close>. A \<^verbatim>\<open>datetime\<close> is its number of microseconds on the time line.
\<close>

type_synonym paper_id = string

text \<open>An author object of the JSON column \<^verbatim>\<open>authors\<close>: a dictionary of strings.\<close>

type_synonym author = "(string \<times> string) list"

record paper =
  paper_id :: paper_id
  title :: string
  authors :: "author list option"
  publication_year :: "int option"
  publication_date :: "int option"
  citation_count :: "int option"
  influence_score :: "real option"

record citation =
  citing_paper_id :: paper_id
  cited_paper_id :: paper_id
  citation_context :: "string option"
  strength :: "real option"

text \<open>
  The exceptions the service can meet. \<open>ValueError\<close> is the "Paper not found" error the
  service raises itself; \<open>StoreFailure\<close> is any exception raised by a query of the session;
  \<open>TypeError\<close> is Python's refusal to compare \<^verbatim>\<open>None\<close> with an integer; \<open>IndexError\<close> is
  \<^verbatim>\<open>pop\<close> on an empty list; \<open>ValidationError\<close> is the error with which a pydantic model
  refuses its keyword arguments.
\<close>

datatype error = ValueError string | StoreFailure | TypeError | IndexError | ValidationError

text \<open>
  The database session \<^verbatim>\<open>db\<close>: the rows of the two tables in the order the store returns
  them, and the point at which the store breaks. Queries are numbered from 0 in the order
  a call issues them; the query whose number is \<open>fails_at\<close> raises (\<open>None\<close>: the store
  answers every query).
\<close>

record session =
  papers :: "paper list"
  citations :: "citation list"
  fails_at :: "nat option"

text \<open>\<^verbatim>\<open>db.query(Paper).filter(Paper.id == UUID(pid)).first()\<close>\<close>

definition query_paper :: "session \<Rightarrow> nat \<Rightarrow> paper_id \<Rightarrow> error + paper option" where
  "query_paper db n pid =
     (if fails_at db = Some n then Inl StoreFailure
      else Inr (find (\<lambda>p. paper_id p = pid) (papers db)))"

text \<open>\<^verbatim>\<open>db.query(Citation).filter(Citation.cited_paper_id == UUID(pid)).all()\<close>\<close>

definition query_citing :: "session \<Rightarrow> nat \<Rightarrow> paper_id \<Rightarrow> error + citation list" where
  "query_citing db n pid =
     (if fails_at db = Some n then Inl StoreFailure
      else Inr (filter (\<lambda>c. cited_paper_id c = pid) (citations db)))"

text \<open>\<^verbatim>\<open>db.query(Citation).filter(Citation.citing_paper_id == UUID(pid)).all()\<close>\<close>

definition query_cited :: "session \<Rightarrow> nat \<Rightarrow> paper_id \<Rightarrow> error + citation list" where
  "query_cited db n pid =
     (if fails_at db = Some n then Inl StoreFailure
      else Inr (filter (\<lambda>c. citing_paper_id c = pid) (citations db)))"

section \<open>The citation network builder\<close>

text \<open>The node and edge dictionaries that the traversal builds.\<close>

record node =
  node_id :: paper_id
  node_title :: string
  node_authors :: "string list"
  node_publication_year :: "int option"
  node_citation_count :: "int option"
  node_influence_score :: "real option"
  is_center :: bool
  node_depth :: int

record edge =
  source :: paper_id
  target :: paper_id
  edge_strength :: "real option"
  edge_context :: string
  edge_type :: string

text \<open>\<^verbatim>\<open>author.get("name", "")\<close>\<close>

definition author_name :: "author \<Rightarrow> string" where
  "author_name a = (case map_of a ''name'' of None \<Rightarrow> [] | Some v \<Rightarrow> v)"

text \<open>The node dictionary built for a paper dequeued at \<open>current_depth\<close>.\<close>

definition make_node :: "paper_id \<Rightarrow> paper_id \<Rightarrow> int \<Rightarrow> paper \<Rightarrow> node" where
  "make_node center_paper_id current_paper_id current_depth p =
     \<lparr> node_id = current_paper_id,
       node_title = title p,
       node_authors = map author_name (case authors p of None \<Rightarrow> [] | Some au \<Rightarrow> au),
       node_publication_year = publication_year p,
       node_citation_count = citation_count p,
       node_influence_score = influence_score p,
       is_center = (current_paper_id = center_paper_id),
       node_depth = current_depth \<rparr>"

text \<open>The edge dictionary built for a citation row; the context is cut to 100 characters.\<close>

definition make_edge :: "paper_id \<Rightarrow> paper_id \<Rightarrow> citation \<Rightarrow> edge" where
  "make_edge src tgt c =
     \<lparr> source = src,
       target = tgt,
       edge_strength = strength c,
       edge_context = (case citation_context c of None \<Rightarrow> [] | Some s \<Rightarrow> take 100 s),
       edge_type = ''cites'' \<rparr>"

text \<open>
  The variables of the traversal: the dictionary \<open>nodes\<close> (in insertion order), the list
  \<open>edges\<close>, the set \<open>visited\<close>, the FIFO \<open>queue\<close> of pairs (paper id, depth), and the number
  of queries the call has issued so far.
\<close>

record bfs_state =
  nodes :: "(paper_id \<times> node) list"
  edges :: "edge list"
  visited :: "paper_id set"
  queue :: "(paper_id \<times> int) list"
  issued :: nat

text \<open>The loop over the citations that cite the current paper (source lines 73 to 87).\<close>

primrec citing_loop :: "paper_id \<Rightarrow> int \<Rightarrow> citation list \<Rightarrow> bfs_state \<Rightarrow> bfs_state" where
  "citing_loop current_paper_id current_depth [] st = st"
| "citing_loop current_paper_id current_depth (c # cs) st =
     citing_loop current_paper_id current_depth cs
       (st\<lparr> edges := edges st @ [make_edge (citing_paper_id c) current_paper_id c],
            queue := (if citing_paper_id c \<notin> visited st
                      then queue st @ [(citing_paper_id c, current_depth + 1)]
                      else queue st) \<rparr>)"

text \<open>The loop over the citations made by the current paper (source lines 94 to 108).\<close>

primrec cited_loop :: "paper_id \<Rightarrow> int \<Rightarrow> citation list \<Rightarrow> bfs_state \<Rightarrow> bfs_state" where
  "cited_loop current_paper_id current_depth [] st = st"
| "cited_loop current_paper_id current_depth (c # cs) st =
     cited_loop current_paper_id current_depth cs
       (st\<lparr> edges := edges st @ [make_edge current_paper_id (cited_paper_id c) c],
            queue := (if cited_paper_id c \<notin> visited st
                      then queue st @ [(cited_paper_id c, current_depth + 1)]
                      else queue st) \<rparr>)"

text \<open>
  Both directions of citations of an accepted node (source lines 67 to 108): two queries,
  each followed by its loop.
\<close>

definition expand :: "session \<Rightarrow> paper_id \<Rightarrow> int \<Rightarrow> bfs_state \<Rightarrow> error + bfs_state" where
  "expand db current_paper_id current_depth st =
     (case query_citing db (issued st) current_paper_id of
        Inl e \<Rightarrow> Inl e
      | Inr citing_citations \<Rightarrow>
          (let st1 = citing_loop current_paper_id current_depth citing_citations
                       (st\<lparr>issued := issued st + 1\<rparr>)
           in case query_cited db (issued st1) current_paper_id of
                Inl e \<Rightarrow> Inl e
              | Inr cited_citations \<Rightarrow>
                  Inr (cited_loop current_paper_id current_depth cited_citations
                         (st1\<lparr>issued := issued st1 + 1\<rparr>))))"

text \<open>
  One iteration of the \<^verbatim>\<open>while\<close> loop (source lines 42 to 108). An iteration that raises
  gives \<open>Inl\<close>; each \<^verbatim>\<open>continue\<close> and the end of the body give the state for the next test
  of the loop condition.
\<close>

definition bfs_step :: "session \<Rightarrow> paper_id \<Rightarrow> int \<Rightarrow> bfs_state \<Rightarrow> error + bfs_state" where
  "bfs_step db center_paper_id depth st =
     (case queue st of
        [] \<Rightarrow> Inl IndexError
      | (current_paper_id, current_depth) # rest \<Rightarrow>
          if current_paper_id \<in> visited st \<or> current_depth > depth
          then Inr (st\<lparr>queue := rest\<rparr>)
          else
            (let st1 = st\<lparr>queue := rest, visited := insert current_paper_id (visited st)\<rparr>
             in case query_paper db (issued st1) current_paper_id of
                  Inl e \<Rightarrow> Inl e
                | Inr None \<Rightarrow> Inr (st1\<lparr>issued := issued st1 + 1\<rparr>)
                | Inr (Some p) \<Rightarrow>
                    (let st2 = st1\<lparr> issued := issued st1 + 1,
                                    nodes := AList.update current_paper_id
                                      (make_node center_paper_id current_paper_id current_depth p)
                                      (nodes st1) \<rparr>
                     in if current_depth < depth
                        then expand db current_paper_id current_depth st2
                        else Inr st2)))"

text \<open>
  The quantity that every iteration decreases: the length of the queue plus, for each
  direction, the number of citation rows whose endpoint in that direction has not been
  visited. Expanding a paper adds at most its rows to the queue and removes all of them
  from the count.
\<close>

definition bfs_measure :: "session \<Rightarrow> bfs_state \<Rightarrow> nat" where
  "bfs_measure db st =
     length (queue st)
     + length (filter (\<lambda>c. cited_paper_id c \<notin> visited st) (citations db))
     + length (filter (\<lambda>c. citing_paper_id c \<notin> visited st) (citations db))"

lemma citing_loop_fields:
  "nodes (citing_loop cur d cs st) = nodes st"
  "visited (citing_loop cur d cs st) = visited st"
  "issued (citing_loop cur d cs st) = issued st"
  by (induction cs arbitrary: st) simp_all

lemma cited_loop_fields:
  "nodes (cited_loop cur d cs st) = nodes st"
  "visited (cited_loop cur d cs st) = visited st"
  "issued (cited_loop cur d cs st) = issued st"
  by (induction cs arbitrary: st) simp_all

lemma citing_loop_queue_length:
  "length (queue (citing_loop cur d cs st)) \<le> length (queue st) + length cs"
proof (induction cs arbitrary: st)
  case Nil
  show ?case by simp
next
  case (Cons c cs)
  have "length (queue (citing_loop cur d (c # cs) st))
          \<le> length (queue st) + 1 + length cs"
    using Cons.IH [of "st\<lparr> edges := edges st @ [make_edge (citing_paper_id c) cur c],
            queue := (if citing_paper_id c \<notin> visited st
                      then queue st @ [(citing_paper_id c, d + 1)]
                      else queue st) \<rparr>"]
    by (simp split: if_splits)
  then show ?case by simp
qed

lemma cited_loop_queue_length:
  "length (queue (cited_loop cur d cs st)) \<le> length (queue st) + length cs"
proof (induction cs arbitrary: st)
  case Nil
  show ?case by simp
next
  case (Cons c cs)
  have "length (queue (cited_loop cur d (c # cs) st))
          \<le> length (queue st) + 1 + length cs"
    using Cons.IH [of "st\<lparr> edges := edges st @ [make_edge cur (cited_paper_id c) c],
            queue := (if cited_paper_id c \<notin> visited st
                      then queue st @ [(cited_paper_id c, d + 1)]
                      else queue st) \<rparr>"]
    by (simp split: if_splits)
  then show ?case by simp
qed

lemma filter_unvisited_insert:
  "a \<notin> V \<Longrightarrow>
   length (filter (\<lambda>c. f c \<notin> insert a V) xs) + length (filter (\<lambda>c. f c = a) xs)
     = length (filter (\<lambda>c. f c \<notin> V) xs)"
  by (induction xs) auto

lemma expand_measure:
  assumes "expand db cur d st = Inr st'"
  shows "visited st' = visited st"
    and "length (queue st') \<le> length (queue st)
           + length (filter (\<lambda>c. cited_paper_id c = cur) (citations db))
           + length (filter (\<lambda>c. citing_paper_id c = cur) (citations db))"
proof -
  from assms obtain xs ys where
    xs: "query_citing db (issued st) cur = Inr xs" and
    ys: "query_cited db (issued (citing_loop cur d xs (st\<lparr>issued := issued st + 1\<rparr>))) cur = Inr ys" and
    st': "st' = cited_loop cur d ys
            ((citing_loop cur d xs (st\<lparr>issued := issued st + 1\<rparr>))
               \<lparr>issued := issued (citing_loop cur d xs (st\<lparr>issued := issued st + 1\<rparr>)) + 1\<rparr>)"
    by (auto simp: expand_def Let_def split: sum.splits)
  have xs_eq: "xs = filter (\<lambda>c. cited_paper_id c = cur) (citations db)"
    using xs by (simp add: query_citing_def split: if_splits)
  have ys_eq: "ys = filter (\<lambda>c. citing_paper_id c = cur) (citations db)"
    using ys by (simp add: query_cited_def split: if_splits)
  show "visited st' = visited st"
    by (simp add: st' cited_loop_fields citing_loop_fields)
  let ?st1 = "citing_loop cur d xs (st\<lparr>issued := issued st + 1\<rparr>)"
  have "length (queue st') \<le> length (queue (?st1\<lparr>issued := issued ?st1 + 1\<rparr>)) + length ys"
    unfolding st'
    by (rule cited_loop_queue_length)
  also have "\<dots> \<le> length (queue st) + length xs + length ys"
    using citing_loop_queue_length [of cur d xs "st\<lparr>issued := issued st + 1\<rparr>"] by simp
  finally show "length (queue st') \<le> length (queue st)
           + length (filter (\<lambda>c. cited_paper_id c = cur) (citations db))
           + length (filter (\<lambda>c. citing_paper_id c = cur) (citations db))"
    by (simp add: xs_eq ys_eq)
qed

lemma bfs_step_decreases:
  assumes "queue st \<noteq> []" and "bfs_step db center_paper_id depth st = Inr st'"
  shows "bfs_measure db st' < bfs_measure db st"
proof -
  from assms(1) obtain cur d rest where q: "queue st = (cur, d) # rest"
    by (cases "queue st") auto
  show ?thesis
  proof (cases "cur \<in> visited st \<or> d > depth")
    case True
    with assms(2) q have "st' = st\<lparr>queue := rest\<rparr>"
      by (simp add: bfs_step_def)
    then show ?thesis by (simp add: bfs_measure_def q)
  next
    case False
    then have nv: "cur \<notin> visited st" by simp
    let ?st1 = "st\<lparr>queue := rest, visited := insert cur (visited st)\<rparr>"
    have m1: "bfs_measure db ?st1
                + length (filter (\<lambda>c. cited_paper_id c = cur) (citations db))
                + length (filter (\<lambda>c. citing_paper_id c = cur) (citations db))
                < bfs_measure db st"
      using filter_unvisited_insert [OF nv, of cited_paper_id "citations db"]
            filter_unvisited_insert [OF nv, of citing_paper_id "citations db"]
      by (simp add: bfs_measure_def q)
    from assms(2) q False consider
        (missing) "st' = ?st1\<lparr>issued := issued ?st1 + 1\<rparr>"
      | (leaf) p where "st' = ?st1\<lparr> issued := issued ?st1 + 1,
                                  nodes := AList.update cur (make_node center_paper_id cur d p) (nodes ?st1) \<rparr>"
      | (inner) p where "expand db cur d (?st1\<lparr> issued := issued ?st1 + 1,
                                  nodes := AList.update cur (make_node center_paper_id cur d p) (nodes ?st1) \<rparr>) = Inr st'"
      by (auto simp: bfs_step_def Let_def split: sum.splits option.splits if_splits)
    then show ?thesis
    proof cases
      case missing
      then have "bfs_measure db st' = bfs_measure db ?st1" by (simp add: bfs_measure_def)
      with m1 show ?thesis by simp
    next
      case leaf
      then have "bfs_measure db st' = bfs_measure db ?st1" by (simp add: bfs_measure_def)
      with m1 show ?thesis by simp
    next
      case inner
      from expand_measure [OF inner]
      have "bfs_measure db st' \<le> bfs_measure db ?st1
                + length (filter (\<lambda>c. cited_paper_id c = cur) (citations db))
                + length (filter (\<lambda>c. citing_paper_id c = cur) (citations db))"
        by (simp add: bfs_measure_def)
      with m1 show ?thesis by simp
    qed
  qed
qed

text \<open>
  The \<^verbatim>\<open>while queue and len(nodes) < max_papers\<close> loop. It is total: the measure above
  decreases with every iteration that does not raise.
\<close>

function bfs_loop :: "session \<Rightarrow> paper_id \<Rightarrow> int \<Rightarrow> int \<Rightarrow> bfs_state \<Rightarrow> error + bfs_state" where
  "bfs_loop db center_paper_id depth max_papers st =
     (if queue st \<noteq> [] \<and> int (length (nodes st)) < max_papers
      then (case bfs_step db center_paper_id depth st of
              Inl e \<Rightarrow> Inl e
            | Inr st' \<Rightarrow> bfs_loop db center_paper_id depth max_papers st')
      else Inr st)"
  by pat_completeness auto
termination
  by (relation "measure (\<lambda>(db, c, d, m, st). bfs_measure db st)")
     (auto simp: bfs_step_decreases)

declare bfs_loop.simps [simp del]

text \<open>The state in which the loop starts, after the one query for the center paper.\<close>

definition initial_state :: "paper_id \<Rightarrow> bfs_state" where
  "initial_state center_paper_id =
     \<lparr> nodes = [], edges = [], visited = {}, queue = [(center_paper_id, 0)], issued = 1 \<rparr>"

text \<open>
  The body of \<^verbatim>\<open>build_citation_network\<close> up to the end of the loop (source lines 31 to
  108): the query for the center paper, the "Paper not found" error, and the traversal.
\<close>

definition traverse :: "session \<Rightarrow> paper_id \<Rightarrow> int \<Rightarrow> int \<Rightarrow> error + bfs_state" where
  "traverse db center_paper_id depth max_papers =
     (case query_paper db 0 center_paper_id of
        Inl e \<Rightarrow> Inl e
      | Inr None \<Rightarrow> Inl (ValueError (''Paper not found: '' @ center_paper_id))
      | Inr (Some center_paper) \<Rightarrow>
          bfs_loop db center_paper_id depth max_papers (initial_state center_paper_id))"

text \<open>
  Python values as they are handed to a pydantic model: strings, numbers, booleans,
  \<^verbatim>\<open>None\<close>, lists, and dictionaries with string keys.
\<close>

datatype pyvalue =
    PStr string
  | PInt int
  | PFloat real
  | PBool bool
  | PNone
  | PList "pyvalue list"
  | PDict "(string \<times> pyvalue) list"

definition opt_value :: "('a \<Rightarrow> pyvalue) \<Rightarrow> 'a option \<Rightarrow> pyvalue" where
  "opt_value f x = (case x of None \<Rightarrow> PNone | Some v \<Rightarrow> f v)"

text \<open>The node dictionary (source lines 55 to 64) and the edge dictionary, key by key.\<close>

definition node_dict :: "node \<Rightarrow> (string \<times> pyvalue) list" where
  "node_dict n =
     [(''id'', PStr (node_id n)),
      (''title'', PStr (node_title n)),
      (''authors'', PList (map PStr (node_authors n))),
      (''publication_year'', opt_value PInt (node_publication_year n)),
      (''citation_count'', opt_value PInt (node_citation_count n)),
      (''influence_score'', opt_value PFloat (node_influence_score n)),
      (''is_center'', PBool (is_center n)),
      (''depth'', PInt (node_depth n))]"

definition edge_dict :: "edge \<Rightarrow> (string \<times> pyvalue) list" where
  "edge_dict e =
     [(''source'', PStr (source e)),
      (''target'', PStr (target e)),
      (''strength'', opt_value PFloat (edge_strength e)),
      (''context'', PStr (edge_context e)),
      (''type'', PStr (edge_type e))]"

text \<open>
  The keyword arguments of the call \<^verbatim>\<open>CitationNetwork(...)\<close> (source lines 111 to 120).
\<close>

definition network_kwargs :: "paper_id \<Rightarrow> int \<Rightarrow> bfs_state \<Rightarrow> (string \<times> pyvalue) list" where
  "network_kwargs center_paper_id depth st =
     (let node_list = map snd (nodes st)
      in [(''nodes'', PList (map (\<lambda>n. PDict (node_dict n)) node_list)),
          (''edges'', PList (map (\<lambda>e. PDict (edge_dict e)) (edges st))),
          (''center_paper_id'', PStr center_paper_id),
          (''depth'', PInt depth),
          (''total_papers'', PInt (int (length node_list))),
          (''total_citations'', PInt (int (length (edges st))))])"

text \<open>
  The three pydantic models of \<^verbatim>\<open>app/schemas/paper.py\<close> (lines 286 to 312): each field with
  its default, \<open>None\<close> for a field that has none and is therefore required.
\<close>

type_synonym model_fields = "(string \<times> pyvalue option) list"

definition CitationNode_fields :: model_fields where
  "CitationNode_fields =
     [(''paper_id'', None),
      (''title'', None),
      (''authors'', Some (PList [])),
      (''year'', Some PNone),
      (''citation_count'', Some (PInt 0)),
      (''influence_score'', Some (PFloat 0))]"

definition CitationEdge_fields :: model_fields where
  "CitationEdge_fields =
     [(''source_id'', None),
      (''target_id'', None),
      (''context'', Some PNone),
      (''sentiment'', Some PNone),
      (''strength'', Some (PFloat 1))]"

definition CitationNetwork_fields :: model_fields where
  "CitationNetwork_fields =
     [(''nodes'', None),
      (''edges'', None),
      (''total_nodes'', None),
      (''total_edges'', None),
      (''center_paper_id'', None),
      (''depth'', Some (PInt 1))]"

text \<open>
  The construction of a pydantic model from keyword arguments or from a dictionary, as
  far as the field names go: a required field that no key names is a \<open>ValidationError\<close>,
  a field that no key names takes its default, and a key that names no field is ignored.
  The result is the model as the list of its fields. The library's check and conversion
  of the values' types is not modelled.
\<close>

definition validate_fields ::
    "model_fields \<Rightarrow> (string \<times> pyvalue) list \<Rightarrow> error + (string \<times> pyvalue) list" where
  "validate_fields fs kwargs =
     (if list_ex (\<lambda>(f, dflt). dflt = None \<and> map_of kwargs f = None) fs
      then Inl ValidationError
      else Inr (map (\<lambda>(f, dflt).
                  (f, case map_of kwargs f of
                        Some v \<Rightarrow> v
                      | None \<Rightarrow> (case dflt of Some d \<Rightarrow> d | None \<Rightarrow> PNone))) fs))"

text \<open>A list of dictionaries against the model of its elements.\<close>

fun validate_items :: "model_fields \<Rightarrow> pyvalue list \<Rightarrow> error + pyvalue list" where
  "validate_items fs [] = Inr []"
| "validate_items fs (PDict d # vs) =
     (case validate_fields fs d of
        Inl e \<Rightarrow> Inl e
      | Inr d' \<Rightarrow>
          (case validate_items fs vs of
             Inl e \<Rightarrow> Inl e
           | Inr vs' \<Rightarrow> Inr (PDict d' # vs')))"
| "validate_items fs (v # vs) = Inl ValidationError"

text \<open>\<^verbatim>\<open>CitationNetwork(**kwargs)\<close>: the fields of the network, then its nodes and its edges.\<close>

definition CitationNetwork :: "(string \<times> pyvalue) list \<Rightarrow> error + (string \<times> pyvalue) list" where
  "CitationNetwork kwargs =
     (case validate_fields CitationNetwork_fields kwargs of
        Inl e \<Rightarrow> Inl e
      | Inr model \<Rightarrow>
          (case (map_of model ''nodes'', map_of model ''edges'') of
             (Some (PList ns), Some (PList es)) \<Rightarrow>
               (case validate_items CitationNode_fields ns of
                  Inl e \<Rightarrow> Inl e
                | Inr ns' \<Rightarrow>
                    (case validate_items CitationEdge_fields es of
                       Inl e \<Rightarrow> Inl e
                     | Inr es' \<Rightarrow>
                         Inr (AList.update ''edges'' (PList es')
                               (AList.update ''nodes'' (PList ns') model))))
           | _ \<Rightarrow> Inl ValidationError))"

text \<open>
  \<^verbatim>\<open>build_citation_network\<close>: the traversal, then the construction of the network from
  the keyword arguments. The \<^verbatim>\<open>except\<close> clause logs and re-raises, so an error of the body
  is the error of the call. The call names \<^verbatim>\<open>total_papers\<close> and \<^verbatim>\<open>total_citations\<close> where
  the model has the required fields \<^verbatim>\<open>total_nodes\<close> and \<^verbatim>\<open>total_edges\<close>.
\<close>

definition build_citation_network ::
    "session \<Rightarrow> paper_id \<Rightarrow> int \<Rightarrow> int \<Rightarrow> error + (string \<times> pyvalue) list" where
  "build_citation_network db center_paper_id depth max_papers =
     (case traverse db center_paper_id depth max_papers of
        Inl e \<Rightarrow> Inl e
      | Inr st \<Rightarrow> CitationNetwork (network_kwargs center_paper_id depth st))"

text \<open>
  The loop cut off after a given number of iterations: \<open>None\<close> when the budget is used up
  while the loop condition still holds, otherwise what the loop returns or raises. It
  serves to count the iterations of \<open>bfs_loop\<close>.
\<close>

fun bfs_run :: "nat \<Rightarrow> session \<Rightarrow> paper_id \<Rightarrow> int \<Rightarrow> int \<Rightarrow> bfs_state \<Rightarrow> (error + bfs_state) option" where
  "bfs_run n db center_paper_id depth max_papers st =
     (if queue st \<noteq> [] \<and> int (length (nodes st)) < max_papers
      then (case n of
              0 \<Rightarrow> None
            | Suc k \<Rightarrow>
                (case bfs_step db center_paper_id depth st of
                   Inl e \<Rightarrow> Some (Inl e)
                 | Inr st' \<Rightarrow> bfs_run k db center_paper_id depth max_papers st'))
      else Some (Inr st))"

declare bfs_run.simps [simp del]

text \<open>What the expansion of a paper appends to \<open>edges\<close> and to \<open>queue\<close>.\<close>

definition new_edges :: "session \<Rightarrow> paper_id \<Rightarrow> edge list" where
  "new_edges db cur =
     map (\<lambda>c. make_edge (citing_paper_id c) cur c)
       (filter (\<lambda>c. cited_paper_id c = cur) (citations db))
     @ map (\<lambda>c. make_edge cur (cited_paper_id c) c)
       (filter (\<lambda>c. citing_paper_id c = cur) (citations db))"

definition new_entries :: "session \<Rightarrow> paper_id set \<Rightarrow> paper_id \<Rightarrow> int \<Rightarrow> (paper_id \<times> int) list" where
  "new_entries db V cur dep =
     map (\<lambda>c. (citing_paper_id c, dep + 1))
       (filter (\<lambda>c. citing_paper_id c \<notin> V)
          (filter (\<lambda>c. cited_paper_id c = cur) (citations db)))
     @ map (\<lambda>c. (cited_paper_id c, dep + 1))
       (filter (\<lambda>c. cited_paper_id c \<notin> V)
          (filter (\<lambda>c. citing_paper_id c = cur) (citations db)))"

text \<open>A paper id has a row in the papers table.\<close>

definition has_paper :: "session \<Rightarrow> paper_id \<Rightarrow> bool" where
  "has_paper db pid = (find (\<lambda>p. paper_id p = pid) (papers db) \<noteq> None)"

text \<open>
  The foreign keys of the citations table: both endpoints of every citation row are papers
  of the store.
\<close>

definition foreign_keys :: "session \<Rightarrow> bool" where
  "foreign_keys db =
     list_all (\<lambda>c. has_paper db (citing_paper_id c) \<and> has_paper db (cited_paper_id c))
       (citations db)"

text \<open>
  The node dictionary during the traversal: its keys have been visited, each key stands
  once, and the node stored under a key carries that key, the center flag of that key and
  a depth within the limit.
\<close>

definition nodes_ok :: "paper_id \<Rightarrow> int \<Rightarrow> bfs_state \<Rightarrow> bool" where
  "nodes_ok c d s \<longleftrightarrow>
     fst ` set (nodes s) \<subseteq> visited s \<and> distinct (map fst (nodes s)) \<and>
     (\<forall>(k, n) \<in> set (nodes s). node_id n = k \<and> is_center n = (k = c) \<and> node_depth n \<le> d)"

text \<open>
  The state of a traversal that can still reach closure: every visited paper is a node,
  every queue entry is within the depth limit and names a paper of the store, and both
  endpoints of every edge are visited or wait in the queue.
\<close>

definition closure_inv :: "session \<Rightarrow> int \<Rightarrow> bfs_state \<Rightarrow> bool" where
  "closure_inv db d s \<longleftrightarrow>
     visited s \<subseteq> fst ` set (nodes s) \<and>
     (\<forall>(x, k) \<in> set (queue s). k \<le> d \<and> has_paper db x) \<and>
     (\<forall>e \<in> set (edges s). source e \<in> visited s \<union> fst ` set (queue s)
                           \<and> target e \<in> visited s \<union> fst ` set (queue s))"

section \<open>The influence calculator\<close>

text \<open>The dictionary \<^verbatim>\<open>calculate_paper_influence\<close> returns on success.\<close>

record metrics =
  metrics_paper_id :: paper_id
  direct_citations :: int
  second_order_citations :: int
  h_index :: int
  metrics_influence_score :: real
  publication_age_years :: int
  citation_rate_per_year :: real
  percentile_rank :: real
  field_normalized_score :: real

text \<open>\<^verbatim>\<open>db.query(Citation).filter(Citation.cited_paper_id == UUID(pid)).count()\<close>\<close>

definition query_count_citing :: "session \<Rightarrow> nat \<Rightarrow> paper_id \<Rightarrow> error + int" where
  "query_count_citing db n pid =
     (if fails_at db = Some n then Inl StoreFailure
      else Inr (int (length (filter (\<lambda>c. cited_paper_id c = pid) (citations db)))))"

text \<open>
  The count of the citation rows whose cited paper is among the papers citing \<open>pid\<close>
  (\<^verbatim>\<open>Citation.cited_paper_id.in_(...)\<close> over the subquery of citing ids).
\<close>

definition query_count_second_order :: "session \<Rightarrow> nat \<Rightarrow> paper_id \<Rightarrow> error + int" where
  "query_count_second_order db n pid =
     (if fails_at db = Some n then Inl StoreFailure
      else Inr (int (length
        (filter
           (\<lambda>c. cited_paper_id c \<in>
                  set (map citing_paper_id
                         (filter (\<lambda>c'. cited_paper_id c' = pid) (citations db))))
           (citations db)))))"

text \<open>
  The papers joined to the citation rows that cite \<open>pid\<close>
  (\<^verbatim>\<open>db.query(Paper).join(Citation, Paper.id == Citation.citing_paper_id)\<close>): each citing
  paper once, as the unique constraint of the citations table allows one row for a pair of
  papers.
\<close>

definition query_citing_papers :: "session \<Rightarrow> nat \<Rightarrow> paper_id \<Rightarrow> error + paper list" where
  "query_citing_papers db n pid =
     (if fails_at db = Some n then Inl StoreFailure
      else Inr (filter
        (\<lambda>p. list_ex (\<lambda>c. citing_paper_id c = paper_id p \<and> cited_paper_id c = pid)
                (citations db))
        (papers db)))"

text \<open>
  \<^verbatim>\<open>citing_citation_counts.sort(reverse=True)\<close> and the comparisons of the loop after it:
  a \<^verbatim>\<open>None\<close> among the counts (a NULL \<^verbatim>\<open>citation_count\<close>) raises \<open>TypeError\<close>, in the sort
  when the list has two elements or more, in the loop's comparison otherwise.
\<close>

fun int_counts :: "int option list \<Rightarrow> error + int list" where
  "int_counts [] = Inr []"
| "int_counts (None # cs) = Inl TypeError"
| "int_counts (Some n # cs) =
     (case int_counts cs of Inl e \<Rightarrow> Inl e | Inr ns \<Rightarrow> Inr (n # ns))"

definition sort_reverse :: "int list \<Rightarrow> int list" where
  "sort_reverse counts = rev (sort counts)"

text \<open>
  The loop \<^verbatim>\<open>for i, count in enumerate(citing_citation_counts)\<close> with its \<^verbatim>\<open>break\<close>
  (source lines 246 to 251): \<open>i\<close> is the index of the element at the head of the list.
\<close>

fun h_index_loop :: "int \<Rightarrow> int \<Rightarrow> int list \<Rightarrow> int" where
  "h_index_loop i h [] = h"
| "h_index_loop i h (count # rest) =
     (if count \<ge> i + 1 then h_index_loop (i + 1) (i + 1) rest else h)"

text \<open>
  The body of the \<^verbatim>\<open>try\<close> block of \<^verbatim>\<open>calculate_paper_influence\<close>; \<open>now\<close> is the value of
  \<^verbatim>\<open>datetime.now()\<close>. The four queries are the queries 0 to 3 of the call.
\<close>

definition influence_body :: "session \<Rightarrow> int \<Rightarrow> paper_id \<Rightarrow> error + metrics" where
  "influence_body db now pid =
     (case query_paper db 0 pid of
        Inl e \<Rightarrow> Inl e
      | Inr None \<Rightarrow> Inl (ValueError (''Paper not found: '' @ pid))
      | Inr (Some p) \<Rightarrow>
     (case query_count_citing db 1 pid of
        Inl e \<Rightarrow> Inl e
      | Inr direct \<Rightarrow>
     (case query_count_second_order db 2 pid of
        Inl e \<Rightarrow> Inl e
      | Inr second_order \<Rightarrow>
     (case query_citing_papers db 3 pid of
        Inl e \<Rightarrow> Inl e
      | Inr citing_papers \<Rightarrow>
     (case int_counts (map citation_count citing_papers) of
        Inl e \<Rightarrow> Inl e
      | Inr citing_citation_counts \<Rightarrow>
          (let h = h_index_loop 0 0 (sort_reverse citing_citation_counts);
               score = min ((real_of_int direct * 0.5 + real_of_int second_order * 0.3
                              + real_of_int h * 0.2) / 100) 1;
               publication_age =
                 (case publication_date p of
                    None \<Rightarrow> 0
                  | Some date \<Rightarrow> ((now - date) div 86400000000) div 365);
               citation_rate =
                 (if publication_age > 0
                  then real_of_int direct / real_of_int (max publication_age 1)
                  else 0)
           in Inr \<lparr> metrics_paper_id = pid,
                    direct_citations = direct,
                    second_order_citations = second_order,
                    h_index = h,
                    metrics_influence_score = score,
                    publication_age_years = publication_age,
                    citation_rate_per_year = citation_rate,
                    percentile_rank = 0,
                    field_normalized_score = 0 \<rparr>))))))"

text \<open>
  \<^verbatim>\<open>calculate_paper_influence\<close>: the \<^verbatim>\<open>except Exception\<close> clause logs the error and returns
  the empty dictionary, here \<open>None\<close>; a full dictionary is \<open>Some\<close> metrics. No path of the
  function raises, so the result is never \<open>Inl\<close>.
\<close>

definition calculate_paper_influence :: "session \<Rightarrow> int \<Rightarrow> paper_id \<Rightarrow> error + metrics option" where
  "calculate_paper_influence db now pid =
     (case influence_body db now pid of
        Inl e \<Rightarrow> Inr None
      | Inr m \<Rightarrow> Inr (Some m))"

text \<open>The citation counts of the papers that cite \<open>pid\<close>, in the order of the papers table.\<close>

definition citer_counts :: "session \<Rightarrow> paper_id \<Rightarrow> int option list" where
  "citer_counts db pid =
     map citation_count
       (filter (\<lambda>p. list_ex (\<lambda>c. citing_paper_id c = paper_id p \<and> cited_paper_id c = pid)
                       (citations db)) (papers db))"

text \<open>
  The h-index in the words of the specification: sort the counts in descending order; the
  value is the largest 1-based index \<open>i\<close> such that the \<open>i\<close>-th count is at least \<open>i\<close>, and 0
  when no index qualifies.
\<close>

definition h_index_spec :: "int list \<Rightarrow> nat" where
  "h_index_spec counts =
     (let sorted_counts = rev (sort counts)
      in Max (set (0 # filter (\<lambda>i. int i \<le> sorted_counts ! (i - 1))
                         [1 ..< Suc (length sorted_counts)])))"

section \<open>Example stores\<close>

definition example_paper :: "paper_id \<Rightarrow> int \<Rightarrow> paper" where
  "example_paper pid n =
     \<lparr> paper_id = pid, title = pid, authors = None, publication_year = None,
       publication_date = None, citation_count = Some n, influence_score = Some 0 \<rparr>"

definition cites :: "paper_id \<Rightarrow> paper_id \<Rightarrow> citation" where
  "cites a b =
     \<lparr> citing_paper_id = a, cited_paper_id = b, citation_context = None, strength = Some 1 \<rparr>"

text \<open>One citation: B cites A.\<close>

definition single_citation_store :: session where
  "single_citation_store =
     \<lparr> papers = [example_paper ''A'' 1, example_paper ''B'' 0],
       citations = [cites ''B'' ''A''],
       fails_at = None \<rparr>"

text \<open>The scenario of the specification: A is cited by B and by C, and B is cited by D.\<close>

definition scenario_store :: session where
  "scenario_store =
     \<lparr> papers = [example_paper ''A'' 2, example_paper ''B'' 1, example_paper ''C'' 0,
                 example_paper ''D'' 0],
       citations = [cites ''B'' ''A'', cites ''C'' ''A'', cites ''D'' ''B''],
       fails_at = None \<rparr>"

text \<open>A self-citation and a cycle: A cites itself, A cites B and B cites A.\<close>

definition self_citation_store :: session where
  "self_citation_store =
     \<lparr> papers = [example_paper ''A'' 1, example_paper ''B'' 1],
       citations = [cites ''A'' ''A'', cites ''A'' ''B'', cites ''B'' ''A''],
       fails_at = None \<rparr>"

text \<open>A paper P cited by five papers whose citation counts are 10, 8, 5, 4 and 3.\<close>

definition five_citers_store :: session where
  "five_citers_store =
     \<lparr> papers = [example_paper ''P'' 5, example_paper ''Q1'' 4, example_paper ''Q2'' 10,
                 example_paper ''Q3'' 3, example_paper ''Q4'' 8, example_paper ''Q5'' 5],
       citations = [cites ''Q1'' ''P'', cites ''Q2'' ''P'', cites ''Q3'' ''P'',
                    cites ''Q4'' ''P'', cites ''Q5'' ''P''],
       fails_at = None \<rparr>"

section \<open>Properties of one iteration and of the loop\<close>

lemma citing_loop_edges:
  "edges (citing_loop cur d cs st) = edges st @ map (\<lambda>c. make_edge (citing_paper_id c) cur c) cs"
  by (induction cs arbitrary: st) simp_all

lemma cited_loop_edges:
  "edges (cited_loop cur d cs st) = edges st @ map (\<lambda>c. make_edge cur (cited_paper_id c) c) cs"
  by (induction cs arbitrary: st) simp_all

lemma citing_loop_queue:
  "queue (citing_loop cur d cs st) =
     queue st @ map (\<lambda>c. (citing_paper_id c, d + 1)) (filter (\<lambda>c. citing_paper_id c \<notin> visited st) cs)"
  by (induction cs arbitrary: st) simp_all

lemma cited_loop_queue:
  "queue (cited_loop cur d cs st) =
     queue st @ map (\<lambda>c. (cited_paper_id c, d + 1)) (filter (\<lambda>c. cited_paper_id c \<notin> visited st) cs)"
  by (induction cs arbitrary: st) simp_all

lemma expand_result:
  assumes "expand db cur dep st = Inr st'"
  shows "nodes st' = nodes st" "visited st' = visited st"
    "edges st' = edges st @ new_edges db cur"
    "queue st' = queue st @ new_entries db (visited st) cur dep"
proof -
  from assms obtain xs ys where
    xs: "query_citing db (issued st) cur = Inr xs" and
    ys: "query_cited db (issued (citing_loop cur dep xs (st\<lparr>issued := issued st + 1\<rparr>))) cur = Inr ys" and
    st': "st' = cited_loop cur dep ys
            ((citing_loop cur dep xs (st\<lparr>issued := issued st + 1\<rparr>))
               \<lparr>issued := issued (citing_loop cur dep xs (st\<lparr>issued := issued st + 1\<rparr>)) + 1\<rparr>)"
    by (auto simp: expand_def Let_def split: sum.splits)
  have xs_eq: "xs = filter (\<lambda>c. cited_paper_id c = cur) (citations db)"
    using xs by (simp add: query_citing_def split: if_splits)
  have ys_eq: "ys = filter (\<lambda>c. citing_paper_id c = cur) (citations db)"
    using ys by (simp add: query_cited_def split: if_splits)
  show "nodes st' = nodes st" "visited st' = visited st"
    by (simp_all add: st' cited_loop_fields citing_loop_fields)
  show "edges st' = edges st @ new_edges db cur"
    by (simp add: st' cited_loop_edges citing_loop_edges new_edges_def xs_eq ys_eq)
  show "queue st' = queue st @ new_entries db (visited st) cur dep"
    by (simp add: st' cited_loop_queue citing_loop_queue citing_loop_fields new_entries_def xs_eq ys_eq)
qed

lemma bfs_step_cases:
  assumes "bfs_step db c d st = Inr st'"
  obtains
    (skip) cur dep rest where
      "queue st = (cur, dep) # rest" "cur \<in> visited st \<or> dep > d"
      "st' = st\<lparr>queue := rest\<rparr>"
  | (missing) cur dep rest where
      "queue st = (cur, dep) # rest" "cur \<notin> visited st" "dep \<le> d"
      "find (\<lambda>p. paper_id p = cur) (papers db) = None"
      "st' = st\<lparr>queue := rest, visited := insert cur (visited st), issued := issued st + 1\<rparr>"
  | (leaf) cur dep rest p where
      "queue st = (cur, dep) # rest" "cur \<notin> visited st" "dep = d"
      "find (\<lambda>p. paper_id p = cur) (papers db) = Some p"
      "st' = st\<lparr>queue := rest, visited := insert cur (visited st), issued := issued st + 1,
                nodes := AList.update cur (make_node c cur dep p) (nodes st)\<rparr>"
  | (inner) cur dep rest p where
      "queue st = (cur, dep) # rest" "cur \<notin> visited st" "dep < d"
      "find (\<lambda>p. paper_id p = cur) (papers db) = Some p"
      "nodes st' = AList.update cur (make_node c cur dep p) (nodes st)"
      "visited st' = insert cur (visited st)"
      "edges st' = edges st @ new_edges db cur"
      "queue st' = rest @ new_entries db (insert cur (visited st)) cur dep"
proof (cases "queue st")
  case Nil
  with assms show ?thesis by (simp add: bfs_step_def)
next
  case (Cons a rest)
  obtain cur dep where a: "a = (cur, dep)" by (cases a)
  have q: "queue st = (cur, dep) # rest" using Cons a by simp
  show ?thesis
  proof (cases "cur \<in> visited st \<or> dep > d")
    case True
    with assms q have "st' = st\<lparr>queue := rest\<rparr>" by (simp add: bfs_step_def)
    with q True show ?thesis by (rule skip)
  next
    case False
    then have nv: "cur \<notin> visited st" and le: "dep \<le> d" by auto
    let ?st1 = "st\<lparr>queue := rest, visited := insert cur (visited st)\<rparr>"
    from assms q False obtain r where
      r: "query_paper db (issued st) cur = Inr r" 
      by (auto simp: bfs_step_def Let_def split: sum.splits)
    then have r_eq: "r = find (\<lambda>p. paper_id p = cur) (papers db)"
      by (simp add: query_paper_def split: if_splits)
    show ?thesis
    proof (cases r)
      case None
      with assms q False r have "st' = st\<lparr>queue := rest, visited := insert cur (visited st), issued := issued st + 1\<rparr>"
        by (simp add: bfs_step_def Let_def)
      with q nv le r_eq None show ?thesis by (intro missing) simp_all
    next
      case (Some p)
      let ?st2 = "st\<lparr>queue := rest, visited := insert cur (visited st), issued := issued st + 1,
                nodes := AList.update cur (make_node c cur dep p) (nodes st)\<rparr>"
      show ?thesis
      proof (cases "dep < d")
        case True
        with assms q False r Some have "expand db cur dep ?st2 = Inr st'"
          by (simp add: bfs_step_def Let_def)
        from expand_result [OF this] q nv True r_eq Some show ?thesis
          by (intro inner) simp_all
      next
        case False
        with assms q \<open>\<not> (cur \<in> visited st \<or> dep > d)\<close> r Some have "st' = ?st2"
          by (simp add: bfs_step_def Let_def)
        with q nv le False r_eq Some show ?thesis by (intro leaf) simp_all
      qed
    qed
  qed
qed

lemma bfs_loop_invariant:
  assumes "\<And>s s'. P s \<Longrightarrow> queue s \<noteq> [] \<Longrightarrow> int (length (nodes s)) < m \<Longrightarrow>
             bfs_step db c d s = Inr s' \<Longrightarrow> P s'"
    and "P st" and "bfs_loop db c d m st = Inr st'"
  shows "P st'"
  using assms
proof (induction db c d m st rule: bfs_loop.induct)
  case (1 db c d m st)
  show ?case
  proof (cases "queue st \<noteq> [] \<and> int (length (nodes st)) < m")
    case True
    with "1.prems"(3) obtain s1 where
      s1: "bfs_step db c d st = Inr s1" and l1: "bfs_loop db c d m s1 = Inr st'"
      by (auto simp: bfs_loop.simps [of db c d m st] split: sum.splits)
    have "P s1" using "1.prems"(1) [OF "1.prems"(2) _ _ s1] True by simp
    from "1.IH" [OF True s1 "1.prems"(1) this l1] show ?thesis by simp
  next
    case False
    with "1.prems"(3) have "st' = st" by (simp add: bfs_loop.simps [of db c d m st])
    with "1.prems"(2) show ?thesis by simp
  qed
qed

lemma bfs_loop_exit:
  assumes "bfs_loop db c d m st = Inr st'"
  shows "queue st' = [] \<or> m \<le> int (length (nodes st'))"
  using assms
proof (induction db c d m st rule: bfs_loop.induct)
  case (1 db c d m st)
  show ?case
  proof (cases "queue st \<noteq> [] \<and> int (length (nodes st)) < m")
    case True
    with "1.prems" obtain s1 where
      s1: "bfs_step db c d st = Inr s1" and l1: "bfs_loop db c d m s1 = Inr st'"
      by (auto simp: bfs_loop.simps [of db c d m st] split: sum.splits)
    from "1.IH" [OF True s1 l1] show ?thesis .
  next
    case False
    with "1.prems" have "st' = st" by (simp add: bfs_loop.simps [of db c d m st])
    with False show ?thesis by auto
  qed
qed

lemma update_fresh: "k \<notin> fst ` set al \<Longrightarrow> AList.update k v al = al @ [(k, v)]"
  by (induction al) auto

lemma bfs_step_nodes:
  assumes "bfs_step db c d st = Inr st'" and "fst ` set (nodes st) \<subseteq> visited st"
  shows "visited st \<subseteq> visited st'"
    and "nodes st' = nodes st \<or>
         (\<exists>cur dep rest p. queue st = (cur, dep) # rest \<and> cur \<notin> visited st \<and> dep \<le> d \<and>
                       cur \<in> visited st' \<and>
                       nodes st' = nodes st @ [(cur, make_node c cur dep p)])"
proof -
  show "visited st \<subseteq> visited st'"
    using assms(1) by (cases rule: bfs_step_cases) auto
  show "nodes st' = nodes st \<or>
         (\<exists>cur dep rest p. queue st = (cur, dep) # rest \<and> cur \<notin> visited st \<and> dep \<le> d \<and>
                       cur \<in> visited st' \<and>
                       nodes st' = nodes st @ [(cur, make_node c cur dep p)])"
    using assms(1)
  proof (cases rule: bfs_step_cases)
    case (skip cur dep rest)
    then show ?thesis by simp
  next
    case (missing cur dep rest)
    then show ?thesis by simp
  next
    case (leaf cur dep rest p)
    with assms(2) have "cur \<notin> fst ` set (nodes st)" by auto
    with leaf show ?thesis by (auto simp: update_fresh)
  next
    case (inner cur dep rest p)
    with assms(2) have "cur \<notin> fst ` set (nodes st)" by auto
    with inner show ?thesis by (auto simp: update_fresh)
  qed
qed

lemma bfs_step_nodes_ok:
  assumes "bfs_step db c d st = Inr st'" and "nodes_ok c d st"
  shows "nodes_ok c d st'"
proof -
  from assms(2) have sub: "fst ` set (nodes st) \<subseteq> visited st" by (simp add: nodes_ok_def)
  note n = bfs_step_nodes [OF assms(1) sub]
  from n(2) show ?thesis
  proof
    assume "nodes st' = nodes st"
    with assms(2) n(1) show ?thesis by (auto simp: nodes_ok_def)
  next
    assume "\<exists>cur dep rest p. queue st = (cur, dep) # rest \<and> cur \<notin> visited st \<and> dep \<le> d \<and>
                       cur \<in> visited st' \<and>
                       nodes st' = nodes st @ [(cur, make_node c cur dep p)]"
    then obtain cur dep rest p where
      *: "cur \<notin> visited st" "dep \<le> d" "cur \<in> visited st'"
         "nodes st' = nodes st @ [(cur, make_node c cur dep p)]" by blast
    with assms(2) n(1) show ?thesis
      by (auto simp: nodes_ok_def make_node_def)
  qed
qed

lemma nodes_ok_initial: "nodes_ok c d (initial_state c)"
  by (simp add: nodes_ok_def initial_state_def)

lemma bfs_loop_nodes_ok:
  assumes "bfs_loop db c d m st = Inr st'" and "nodes_ok c d st"
  shows "nodes_ok c d st'"
  using bfs_loop_invariant [where P = "nodes_ok c d", OF _ assms(2) assms(1)]
    bfs_step_nodes_ok by blast


lemma traverse_result:
  assumes "traverse db c d m = Inr st"
  obtains p where "find (\<lambda>p. paper_id p = c) (papers db) = Some p"
    "fails_at db \<noteq> Some 0"
    "bfs_loop db c d m (initial_state c) = Inr st"
  using assms
  by (auto simp: traverse_def query_paper_def split: sum.splits option.splits if_splits)

lemma network_kwargs_refused:
  "CitationNetwork (network_kwargs c d st) = Inl ValidationError"
  by (simp add: CitationNetwork_def validate_fields_def CitationNetwork_fields_def
        network_kwargs_def Let_def)

lemma build_raises:
  "traverse db c d m = Inr st \<Longrightarrow> build_citation_network db c d m = Inl ValidationError"
  by (simp add: build_citation_network_def network_kwargs_refused)

lemma build_never_returns: "build_citation_network db c d m \<noteq> Inr net"
  by (simp add: build_citation_network_def network_kwargs_refused split: sum.splits)





lemma new_edges_endpoint:
  "e \<in> set (new_edges db cur) \<Longrightarrow> source e = cur \<or> target e = cur"
  by (auto simp: new_edges_def make_edge_def)

lemma new_entries_member:
  assumes "r \<in> set (citations db)"
  shows "cited_paper_id r = cur \<Longrightarrow> citing_paper_id r \<notin> V \<Longrightarrow>
           citing_paper_id r \<in> fst ` set (new_entries db V cur dep)"
    and "citing_paper_id r = cur \<Longrightarrow> cited_paper_id r \<notin> V \<Longrightarrow>
           cited_paper_id r \<in> fst ` set (new_entries db V cur dep)"
  using assms by (force simp: new_entries_def)+

lemma new_edges_enqueued:
  assumes "e \<in> set (new_edges db cur)" and "cur \<in> V"
  shows "source e \<in> V \<union> fst ` set (new_entries db V cur dep)
         \<and> target e \<in> V \<union> fst ` set (new_entries db V cur dep)"
proof -
  from assms(1) obtain r where r: "r \<in> set (citations db)" and
    "cited_paper_id r = cur \<and> e = make_edge (citing_paper_id r) cur r
     \<or> citing_paper_id r = cur \<and> e = make_edge cur (cited_paper_id r) r"
    by (auto simp: new_edges_def)
  then show ?thesis
  proof (elim disjE conjE)
    assume a: "cited_paper_id r = cur" "e = make_edge (citing_paper_id r) cur r"
    show ?thesis
      using new_entries_member(1) [OF r a(1), of V dep] assms(2)
      by (cases "citing_paper_id r \<in> V") (simp_all add: a(2) make_edge_def)
  next
    assume a: "citing_paper_id r = cur" "e = make_edge cur (cited_paper_id r) r"
    show ?thesis
      using new_entries_member(2) [OF r a(1), of V dep] assms(2)
      by (cases "cited_paper_id r \<in> V") (simp_all add: a(2) make_edge_def)
  qed
qed

lemma new_entries_ok:
  assumes "(x, k) \<in> set (new_entries db V cur dep)" and "foreign_keys db"
  shows "k = dep + 1" and "has_paper db x"
  using assms by (auto simp: new_entries_def foreign_keys_def list_all_iff)

text \<open>One expanded endpoint of every edge is a key of the node dictionary.\<close>

lemma bfs_step_one_endpoint:
  assumes "bfs_step db c d st = Inr st'"
    and "\<forall>e \<in> set (edges st). source e \<in> fst ` set (nodes st) \<or> target e \<in> fst ` set (nodes st)"
  shows "\<forall>e \<in> set (edges st'). source e \<in> fst ` set (nodes st') \<or> target e \<in> fst ` set (nodes st')"
  using assms(1)
proof (cases rule: bfs_step_cases)
  case (skip cur dep rest)
  with assms(2) show ?thesis by simp
next
  case (missing cur dep rest)
  with assms(2) show ?thesis by simp
next
  case (leaf cur dep rest p)
  with assms(2) show ?thesis by (auto simp: AList.dom_update)
next
  case (inner cur dep rest p)
  have keys: "fst ` set (nodes st') = insert cur (fst ` set (nodes st))"
    by (simp add: inner(5) AList.dom_update)
  show ?thesis
  proof
    fix e assume "e \<in> set (edges st')"
    then consider "e \<in> set (edges st)" | "e \<in> set (new_edges db cur)"
      by (auto simp: inner(7))
    then show "source e \<in> fst ` set (nodes st') \<or> target e \<in> fst ` set (nodes st')"
    proof cases
      case 1
      with assms(2) keys show ?thesis by auto
    next
      case 2
      from new_edges_endpoint [OF this] keys show ?thesis by auto
    qed
  qed
qed

lemma bfs_step_closure_inv:
  assumes "bfs_step db c d st = Inr st'" and "closure_inv db d st" and "foreign_keys db"
  shows "closure_inv db d st'"
  using assms(1)
proof (cases rule: bfs_step_cases)
  case (skip cur dep rest)
  from assms(2) skip(1) have "dep \<le> d" by (auto simp: closure_inv_def)
  with skip(2) have "cur \<in> visited st" by simp
  with assms(2) skip(1,3) show ?thesis by (auto simp: closure_inv_def)
next
  case (missing cur dep rest)
  from assms(2) missing(1) have "has_paper db cur" by (auto simp: closure_inv_def)
  with missing(4) show ?thesis by (simp add: has_paper_def)
next
  case (leaf cur dep rest p)
  with assms(2) show ?thesis by (auto simp: closure_inv_def AList.dom_update)
next
  case (inner cur dep rest p)
  let ?V = "insert cur (visited st)"
  have v: "visited st' \<subseteq> fst ` set (nodes st')"
    using assms(2) by (auto simp: inner(5,6) closure_inv_def AList.dom_update)
  have q: "\<forall>(x, k) \<in> set (queue st'). k \<le> d \<and> has_paper db x"
  proof -
    have "k \<le> d \<and> has_paper db x" if "(x, k) \<in> set (queue st')" for x k
    proof -
      from that consider "(x, k) \<in> set rest" | "(x, k) \<in> set (new_entries db ?V cur dep)"
        by (auto simp: inner(8))
      then show ?thesis
      proof cases
        case 1
        with assms(2) inner(1) show ?thesis by (auto simp: closure_inv_def)
      next
        case 2
        from new_entries_ok [OF this assms(3)] inner(3) show ?thesis by simp
      qed
    qed
    then show ?thesis by auto
  qed
  have e: "\<forall>e \<in> set (edges st'). source e \<in> visited st' \<union> fst ` set (queue st')
                           \<and> target e \<in> visited st' \<union> fst ` set (queue st')"
  proof
    fix e assume "e \<in> set (edges st')"
    then consider "e \<in> set (edges st)" | "e \<in> set (new_edges db cur)"
      by (auto simp: inner(7))
    then show "source e \<in> visited st' \<union> fst ` set (queue st')
                           \<and> target e \<in> visited st' \<union> fst ` set (queue st')"
    proof cases
      case 1
      with assms(2) have "source e \<in> visited st \<union> fst ` set (queue st)"
        and "target e \<in> visited st \<union> fst ` set (queue st)"
        by (auto simp: closure_inv_def)
      then show ?thesis by (auto simp: inner(1,6,8))
    next
      case 2
      have "cur \<in> ?V" by simp
      from new_edges_enqueued [OF 2 this, of dep] show ?thesis
        by (auto simp: inner(6,8))
    qed
  qed
  from v q e show ?thesis by (simp add: closure_inv_def)
qed

lemma closure_inv_initial:
  "has_paper db c \<Longrightarrow> 0 \<le> d \<Longrightarrow> closure_inv db d (initial_state c)"
  by (simp add: closure_inv_def initial_state_def)

lemma bfs_loop_one_endpoint:
  assumes "bfs_loop db c d m st = Inr st'"
    and "\<forall>e \<in> set (edges st). source e \<in> fst ` set (nodes st) \<or> target e \<in> fst ` set (nodes st)"
  shows "\<forall>e \<in> set (edges st'). source e \<in> fst ` set (nodes st') \<or> target e \<in> fst ` set (nodes st')"
  by (rule bfs_loop_invariant
        [where P = "\<lambda>s. \<forall>e \<in> set (edges s). source e \<in> fst ` set (nodes s)
                                         \<or> target e \<in> fst ` set (nodes s)",
         OF _ assms(2) assms(1)])
     (rule bfs_step_one_endpoint)

lemma bfs_loop_closure_inv:
  assumes "bfs_loop db c d m st = Inr st'" and "closure_inv db d st" and "foreign_keys db"
  shows "closure_inv db d st'"
  by (rule bfs_loop_invariant [where P = "closure_inv db d", OF _ assms(2) assms(1)])
     (rule bfs_step_closure_inv [OF _ _ assms(3)])

lemma bfs_measure_initial:
  "bfs_measure db (initial_state c) = 1 + 2 * length (citations db)"
  by (simp add: bfs_measure_def initial_state_def)

lemma bfs_run_enough:
  "bfs_measure db st \<le> n \<Longrightarrow> bfs_run n db c d m st = Some (bfs_loop db c d m st)"
proof (induction n arbitrary: st)
  case 0
  then have "queue st = []" by (simp add: bfs_measure_def)
  then show ?case
    by (simp add: bfs_run.simps [of 0 db c d m st] bfs_loop.simps [of db c d m st])
next
  case (Suc n)
  show ?case
  proof (cases "queue st \<noteq> [] \<and> int (length (nodes st)) < m")
    case True
    show ?thesis
    proof (cases "bfs_step db c d st")
      case (Inl e)
      with True show ?thesis
        by (simp add: bfs_run.simps [of "Suc n" db c d m st] bfs_loop.simps [of db c d m st])
    next
      case (Inr s1)
      from True have "queue st \<noteq> []" by simp
      from bfs_step_decreases [OF this Inr] Suc.prems have "bfs_measure db s1 \<le> n" by simp
      from Suc.IH [OF this] True Inr show ?thesis
        by (simp add: bfs_run.simps [of "Suc n" db c d m st] bfs_loop.simps [of db c d m st])
    qed
  next
    case False
    then show ?thesis
      by (auto simp: bfs_run.simps [of "Suc n" db c d m st] bfs_loop.simps [of db c d m st])
  qed
qed

section \<open>Properties of the influence calculator\<close>


lemma influence_body_cases:
  assumes "influence_body db now pid = Inr m"
  obtains p counts where
    "find (\<lambda>p. paper_id p = pid) (papers db) = Some p"
    "int_counts (map citation_count
       (filter (\<lambda>p. list_ex (\<lambda>c. citing_paper_id c = paper_id p \<and> cited_paper_id c = pid)
                       (citations db)) (papers db))) = Inr counts"
    "direct_citations m = int (length (filter (\<lambda>c. cited_paper_id c = pid) (citations db)))"
    "0 \<le> second_order_citations m"
    "h_index m = h_index_loop 0 0 (sort_reverse counts)"
    "metrics_influence_score m =
       min ((real_of_int (direct_citations m) * 0.5 + real_of_int (second_order_citations m) * 0.3
              + real_of_int (h_index m) * 0.2) / 100) 1"
  using assms
  by (auto simp: influence_body_def query_paper_def query_count_citing_def
        query_count_second_order_def query_citing_papers_def Let_def
      split: sum.splits option.splits if_splits)

lemma calculate_Some:
  "calculate_paper_influence db now pid = Inr (Some m) \<longleftrightarrow> influence_body db now pid = Inr m"
  by (auto simp: calculate_paper_influence_def split: sum.splits)

lemma h_index_loop_char:
  "\<exists>r. h_index_loop (int k) (int k) ys = int r \<and> k \<le> r \<and> r \<le> k + length ys
       \<and> (\<forall>j. k < j \<and> j \<le> r \<longrightarrow> int j \<le> ys ! (j - k - 1))
       \<and> (r < k + length ys \<longrightarrow> ys ! (r - k) < int r + 1)"
proof (induction ys arbitrary: k)
  case Nil
  show ?case by simp
next
  case (Cons y ys)
  show ?case
  proof (cases "int k + 1 \<le> y")
    case False
    then have "h_index_loop (int k) (int k) (y # ys) = int k" by simp
    moreover from False have "(y # ys) ! (k - k) < int k + 1" by simp
    ultimately show ?thesis by (intro exI [of _ k]) simp
  next
    case True
    from Cons.IH [of "Suc k"] obtain r where
      r: "h_index_loop (int (Suc k)) (int (Suc k)) ys = int r" and
      lo: "Suc k \<le> r" and hi: "r \<le> Suc k + length ys" and
      q: "\<forall>j. Suc k < j \<and> j \<le> r \<longrightarrow> int j \<le> ys ! (j - Suc k - 1)" and
      stop: "r < Suc k + length ys \<longrightarrow> ys ! (r - Suc k) < int r + 1"
      by blast
    from r have "h_index_loop (int k + 1) (int k + 1) ys = int r"
      by (simp add: add.commute)
    with True have 1: "h_index_loop (int k) (int k) (y # ys) = int r" by simp
    have 2: "int j \<le> (y # ys) ! (j - k - 1)" if "k < j" "j \<le> r" for j
    proof (cases "j = Suc k")
      case True
      with \<open>int k + 1 \<le> y\<close> show ?thesis by simp
    next
      case False
      with that have "Suc k < j" by simp
      with q that have "int j \<le> ys ! (j - Suc k - 1)" by simp
      moreover from \<open>Suc k < j\<close> have "(y # ys) ! (j - k - 1) = ys ! (j - Suc k - 1)"
        by (simp add: nth_Cons')
      ultimately show ?thesis by simp
    qed
    have 3: "(y # ys) ! (r - k) < int r + 1" if "r < k + length (y # ys)"
    proof -
      from that stop have "ys ! (r - Suc k) < int r + 1" by simp
      moreover from lo have "(y # ys) ! (r - k) = ys ! (r - Suc k)"
        by (simp add: nth_Cons')
      ultimately show ?thesis by simp
    qed
    from 1 2 3 lo hi show ?thesis by (intro exI [of _ r]) auto
  qed
qed

lemma h_index_loop_spec:
  "h_index_loop 0 0 (sort_reverse counts) = int (h_index_spec counts)"
proof -
  let ?xs = "rev (sort counts)"
  let ?A = "set (0 # filter (\<lambda>i. int i \<le> ?xs ! (i - 1)) [1 ..< Suc (length ?xs)])"
  have desc: "sorted (rev ?xs)" by simp
  from h_index_loop_char [of 0 ?xs] obtain r where
    r: "h_index_loop 0 0 ?xs = int r" and hi: "r \<le> length ?xs" and
    q: "\<forall>j. 0 < j \<and> j \<le> r \<longrightarrow> int j \<le> ?xs ! (j - 1)" and
    stop: "r < length ?xs \<longrightarrow> ?xs ! r < int r + 1"
    by auto
  have A: "?A = insert 0 {i. 1 \<le> i \<and> i \<le> length ?xs \<and> int i \<le> ?xs ! (i - 1)}"
    by (auto simp del: upt_Suc)
  have mem: "r \<in> ?A"
  proof (cases "r = 0")
    case True
    then show ?thesis by simp
  next
    case False
    with q have "int r \<le> ?xs ! (r - 1)" by simp
    with False hi show ?thesis unfolding A by simp
  qed
  have ub: "i \<le> r" if "i \<in> ?A" for i
  proof (rule ccontr)
    assume "\<not> i \<le> r"
    then have lt: "r < i" by simp
    with that have i: "1 \<le> i" "i \<le> length ?xs" "int i \<le> ?xs ! (i - 1)"
      unfolding A by auto
    from lt i have "r < length ?xs" by simp
    with stop have "?xs ! r < int r + 1" by simp
    moreover have "?xs ! (i - 1) \<le> ?xs ! r"
      using sorted_rev_nth_mono [OF desc, of r "i - 1"] lt i by simp
    ultimately show False using i(3) lt by linarith
  qed
  have "Max ?A = r"
    by (rule Max_eqI) (use mem ub in auto)
  then show ?thesis
    using r by (simp add: sort_reverse_def h_index_spec_def Let_def)
qed

lemma int_counts_Inr: "int_counts cs = Inr ns \<Longrightarrow> cs = map Some ns"
proof (induction cs arbitrary: ns rule: int_counts.induct)
  case 1
  then show ?case by simp
next
  case (2 cs)
  then show ?case by simp
next
  case (3 n cs)
  then show ?case by (auto split: sum.splits)
qed

lemma calculate_never_raises: "calculate_paper_influence db now pid \<noteq> Inl e"
  by (simp add: calculate_paper_influence_def split: sum.splits)

lemma influence_body_not_found:
  "\<not> has_paper db pid \<Longrightarrow> \<exists>e. influence_body db now pid = Inl e"
  by (simp add: influence_body_def query_paper_def has_paper_def)

lemma influence_body_store_failure:
  assumes "fails_at db = Some k" and "k < 4"
  shows "\<exists>e. influence_body db now pid = Inl e"
proof -
  from assms(2) consider "k = 0" | "k = 1" | "k = 2" | "k = 3" by linarith
  then show ?thesis
  proof cases
    case 1
    with assms(1) show ?thesis by (simp add: influence_body_def query_paper_def)
  next
    case 2
    with assms(1) show ?thesis
      by (simp add: influence_body_def query_paper_def query_count_citing_def
            split: option.splits)
  next
    case 3
    with assms(1) show ?thesis
      by (simp add: influence_body_def query_paper_def query_count_citing_def
            query_count_second_order_def split: option.splits)
  next
    case 4
    with assms(1) show ?thesis
      by (simp add: influence_body_def query_paper_def query_count_citing_def
            query_count_second_order_def query_citing_papers_def split: option.splits)
  qed
qed

section \<open>The data that the traversal hands to the constructor\<close>

text \<open>
  Every edge that the traversal records has at least one endpoint among the recorded
  nodes, the paper that was being expanded. Both endpoints are among them when the
  traversal ended below the cap and both endpoints of every citation row are papers of
  the store; when the cap ends the loop, the neighbours still waiting in the queue are
  endpoints of recorded edges and no nodes.
\<close>

lemma traversal_edge_endpoints:
  assumes "traverse db center_paper_id depth max_papers = Inr st"
    and "0 \<le> depth" and "1 \<le> max_papers"
  shows "list_all (\<lambda>e. source e \<in> fst ` set (nodes st) \<or> target e \<in> fst ` set (nodes st))
           (edges st)
         \<and> (foreign_keys db \<and> int (length (nodes st)) < max_papers \<longrightarrow>
              list_all (\<lambda>e. source e \<in> fst ` set (nodes st) \<and> target e \<in> fst ` set (nodes st))
                (edges st))"
proof -
  from assms(1) obtain p where
    p: "find (\<lambda>p. paper_id p = center_paper_id) (papers db) = Some p" and
    loop: "bfs_loop db center_paper_id depth max_papers (initial_state center_paper_id) = Inr st"
    by (rule traverse_result)
  have "\<forall>e \<in> set (edges st). source e \<in> fst ` set (nodes st) \<or> target e \<in> fst ` set (nodes st)"
    by (rule bfs_loop_one_endpoint [OF loop]) (simp add: initial_state_def)
  then have one: "list_all (\<lambda>e. source e \<in> fst ` set (nodes st)
                                \<or> target e \<in> fst ` set (nodes st)) (edges st)"
    unfolding list_all_iff .
  have both: "list_all (\<lambda>e. source e \<in> fst ` set (nodes st)
                           \<and> target e \<in> fst ` set (nodes st)) (edges st)"
    if fk: "foreign_keys db" and below: "int (length (nodes st)) < max_papers"
  proof -
    have "has_paper db center_paper_id" using p by (simp add: has_paper_def)
    from closure_inv_initial [OF this assms(2)]
    have inv: "closure_inv db depth st" by (rule bfs_loop_closure_inv [OF loop _ fk])
    from bfs_loop_exit [OF loop] below have "queue st = []" by simp
    with inv have "\<forall>e \<in> set (edges st). source e \<in> fst ` set (nodes st)
                                       \<and> target e \<in> fst ` set (nodes st)"
      by (auto simp: closure_inv_def)
    then show ?thesis unfolding list_all_iff .
  qed
  from one both show ?thesis by blast
qed

lemma traversal_edges_beyond_cap:
  "\<exists>st. traverse scenario_store ''A'' 1 1 = Inr st
     \<and> map fst (nodes st) = [''A'']
     \<and> map (\<lambda>e. (source e, target e)) (edges st) = [(''B'', ''A''), (''C'', ''A'')]"
proof -
  have "case traverse scenario_store ''A'' 1 1 of
          Inl e \<Rightarrow> False
        | Inr st \<Rightarrow>
            map fst (nodes st) = [''A'']
            \<and> map (\<lambda>e. (source e, target e)) (edges st) = [(''B'', ''A''), (''C'', ''A'')]"
    by code_simp
  then show ?thesis by (simp split: sum.splits)
qed

section \<open>The claims\<close>

text \<open>
  C10. For the store with the single citation B -> A, the traversal around A with depth 2
  records the edge B -> A twice, once when A is expanded and once when B is expanded, and
  the call passes the count 2 as \<^verbatim>\<open>total_citations\<close>. No network is returned with them: the
  keyword arguments name no \<^verbatim>\<open>total_edges\<close>, and the call raises \<open>ValidationError\<close>.
\<close>

theorem single_citation_call_raises:
  "build_citation_network single_citation_store ''A'' 2 10 = Inl ValidationError
   \<and> (\<exists>st. traverse single_citation_store ''A'' 2 10 = Inr st
          \<and> map (\<lambda>e. (source e, target e)) (edges st) = [(''B'', ''A''), (''B'', ''A'')]
          \<and> map_of (network_kwargs ''A'' 2 st) ''total_citations'' = Some (PInt 2)
          \<and> map_of (network_kwargs ''A'' 2 st) ''total_edges'' = None)"
proof -
  have "case traverse single_citation_store ''A'' 2 10 of
          Inl e \<Rightarrow> False
        | Inr st \<Rightarrow>
            map (\<lambda>e. (source e, target e)) (edges st) = [(''B'', ''A''), (''B'', ''A'')]"
    by code_simp
  then obtain st where
    st: "traverse single_citation_store ''A'' 2 10 = Inr st" and
    e: "map (\<lambda>e. (source e, target e)) (edges st) = [(''B'', ''A''), (''B'', ''A'')]"
    by (auto split: sum.splits)
  have "length (map (\<lambda>e. (source e, target e)) (edges st)) = 2" by (simp add: e)
  then have "length (edges st) = 2" by simp
  then have "map_of (network_kwargs ''A'' 2 st) ''total_citations'' = Some (PInt 2)"
    and "map_of (network_kwargs ''A'' 2 st) ''total_edges'' = None"
    by (simp_all add: network_kwargs_def Let_def)
  with st e build_raises [OF st] show ?thesis by (intro conjI exI [of _ st]) simp_all
qed

text \<open>
  C2. In the scenario (A is cited by B and by C, B is cited by D) the traversal around A
  with depth 2 and at most 10 papers records the nodes A at depth 0, B and C at depth 1
  and D at depth 2, and five edges: B -> A, C -> A, D -> B, and B -> A and C -> A a second
  time. The call does not return them: it raises \<open>ValidationError\<close>.
\<close>

theorem scenario_call_raises:
  "build_citation_network scenario_store ''A'' 2 10 = Inl ValidationError
   \<and> (\<exists>st. traverse scenario_store ''A'' 2 10 = Inr st
          \<and> map (\<lambda>(k, n). (node_id n, node_depth n)) (nodes st)
              = [(''A'', 0), (''B'', 1), (''C'', 1), (''D'', 2)]
          \<and> map (\<lambda>e. (source e, target e)) (edges st)
              = [(''B'', ''A''), (''C'', ''A''), (''D'', ''B''), (''B'', ''A''), (''C'', ''A'')])"
proof -
  have "case traverse scenario_store ''A'' 2 10 of
          Inl e \<Rightarrow> False
        | Inr st \<Rightarrow>
            map (\<lambda>(k, n). (node_id n, node_depth n)) (nodes st)
              = [(''A'', 0), (''B'', 1), (''C'', 1), (''D'', 2)]
            \<and> map (\<lambda>e. (source e, target e)) (edges st)
              = [(''B'', ''A''), (''C'', ''A''), (''D'', ''B''), (''B'', ''A''), (''C'', ''A'')]"
    by code_simp
  then obtain st where
    st: "traverse scenario_store ''A'' 2 10 = Inr st" and
    n: "map (\<lambda>(k, n). (node_id n, node_depth n)) (nodes st)
       = [(''A'', 0), (''B'', 1), (''C'', 1), (''D'', 2)]" and
    e: "map (\<lambda>e. (source e, target e)) (edges st)
       = [(''B'', ''A''), (''C'', ''A''), (''D'', ''B''), (''B'', ''A''), (''C'', ''A'')]"
    by (auto split: sum.splits)
  show ?thesis
  proof (intro conjI exI [of _ st])
    show "build_citation_network scenario_store ''A'' 2 10 = Inl ValidationError"
      by (rule build_raises [OF st])
  qed (fact st n e)+
qed





text \<open>
  C9. The traversal terminates for every store, center paper, depth and maximum: the loop
  of \<open>build_citation_network\<close> ends, by leaving the loop or by raising, within
  \<open>1 + 2 * length (citations db)\<close> iterations, whatever cycles or self-citations the store
  holds. A paper id is expanded at most once, so the keys of the node dictionary are
  distinct.
\<close>

theorem traversal_terminates:
  "bfs_run (1 + 2 * length (citations db)) db center_paper_id depth max_papers
       (initial_state center_paper_id)
   = Some (bfs_loop db center_paper_id depth max_papers (initial_state center_paper_id))
   \<and> (case bfs_loop db center_paper_id depth max_papers (initial_state center_paper_id) of
         Inl e \<Rightarrow> True
       | Inr st \<Rightarrow> distinct (map fst (nodes st)))"
proof -
  have "bfs_run (1 + 2 * length (citations db)) db center_paper_id depth max_papers
          (initial_state center_paper_id)
        = Some (bfs_loop db center_paper_id depth max_papers (initial_state center_paper_id))"
    by (rule bfs_run_enough) (simp add: bfs_measure_initial)
  moreover have "distinct (map fst (nodes st))"
    if "bfs_loop db center_paper_id depth max_papers (initial_state center_paper_id) = Inr st"
    for st
    using bfs_loop_nodes_ok [OF that nodes_ok_initial] by (simp add: nodes_ok_def)
  ultimately show ?thesis by (simp split: sum.splits)
qed

theorem traversal_terminates_witness:
  "\<exists>st. bfs_run 7 self_citation_store ''A'' 5 10 (initial_state ''A'') = Some (Inr st)
     \<and> map fst (nodes st) = [''A'', ''B''] \<and> queue st = []"
proof -
  have "case bfs_loop self_citation_store ''A'' 5 10 (initial_state ''A'') of
          Inl e \<Rightarrow> False
        | Inr st \<Rightarrow> map fst (nodes st) = [''A'', ''B''] \<and> queue st = []"
    by code_simp
  then obtain st where
    "bfs_loop self_citation_store ''A'' 5 10 (initial_state ''A'') = Inr st"
    "map fst (nodes st) = [''A'', ''B'']" "queue st = []"
    by (auto split: sum.splits)
  moreover have "length (citations self_citation_store) = 3"
    by (simp add: self_citation_store_def)
  ultimately show ?thesis
    using traversal_terminates [of self_citation_store "''A''" 5 10] by simp
qed

text \<open>
  C6. Whenever \<open>calculate_paper_influence\<close> returns metrics, every direct citer has a
  citation count, and the \<open>h_index\<close> returned is the h-index of these counts in the words
  of the specification: sorted in descending order, the largest 1-based index \<open>i\<close> whose
  count is at least \<open>i\<close>, and 0 when there is none. In particular the counts 10, 8, 5, 4, 3
  give 4.
\<close>

theorem h_index_is_spec:
  assumes "calculate_paper_influence db now pid = Inr (Some m)"
  shows "\<exists>counts. citer_counts db pid = map Some counts
           \<and> h_index m = int (h_index_spec counts)
           \<and> (rev (sort counts) = [10, 8, 5, 4, 3] \<longrightarrow> h_index m = 4)"
proof -
  from assms have "influence_body db now pid = Inr m" by (simp add: calculate_Some)
  then obtain counts where
    c: "int_counts (citer_counts db pid) = Inr counts" and
    h: "h_index m = h_index_loop 0 0 (sort_reverse counts)"
    unfolding citer_counts_def by (rule influence_body_cases)
  have "h_index m = 4" if "rev (sort counts) = [10, 8, 5, 4, 3]"
    using h that by (simp add: sort_reverse_def)
  with int_counts_Inr [OF c] h show ?thesis
    by (auto simp: h_index_loop_spec)
qed

theorem h_index_is_spec_witness:
  "\<exists>m. calculate_paper_influence five_citers_store 0 ''P'' = Inr (Some m)
     \<and> citer_counts five_citers_store ''P'' = map Some [4, 10, 3, 8, 5]
     \<and> rev (sort [4, 10, 3, 8, 5 :: int]) = [10, 8, 5, 4, 3]
     \<and> h_index m = 4 \<and> h_index_spec [4, 10, 3, 8, 5] = 4"
proof -
  have "case calculate_paper_influence five_citers_store 0 ''P'' of
          Inr (Some m) \<Rightarrow> True | _ \<Rightarrow> False"
    by code_simp
  then obtain m where
    m: "calculate_paper_influence five_citers_store 0 ''P'' = Inr (Some m)"
    by (auto split: sum.splits option.splits)
  have cc: "citer_counts five_citers_store ''P'' = map Some [4, 10, 3, 8, 5]"
    by code_simp
  have srt: "rev (sort [4, 10, 3, 8, 5 :: int]) = [10, 8, 5, 4, 3]"
    by code_simp
  from h_index_is_spec [OF m] obtain counts where
    "citer_counts five_citers_store ''P'' = map Some counts"
    "h_index m = int (h_index_spec counts)"
    "rev (sort counts) = [10, 8, 5, 4, 3] \<longrightarrow> h_index m = 4"
    by blast
  with cc srt have "counts = [4, 10, 3, 8, 5]" "h_index m = 4" "int (h_index_spec counts) = 4"
    by (auto simp: map_eq_conv inj_map_eq_map)
  with m cc srt show ?thesis by auto
qed



text \<open>
  C3, as the code has it. \<open>calculate_paper_influence\<close> never raises. When the paper id
  has no row in the papers table, and when one of the four queries of the call fails, it
  returns the empty dictionary: no error reaches the caller, and no metrics either.
\<close>

theorem influence_failures_give_empty:
  "(\<forall>e. calculate_paper_influence db now pid \<noteq> Inl e)
   \<and> (\<not> has_paper db pid \<or> (\<exists>k<4. fails_at db = Some k) \<longrightarrow>
        calculate_paper_influence db now pid = Inr None)"
proof -
  have "calculate_paper_influence db now pid = Inr None"
    if "\<not> has_paper db pid \<or> (\<exists>k<4. fails_at db = Some k)"
  proof -
    from that have "\<exists>e. influence_body db now pid = Inl e"
      using influence_body_not_found influence_body_store_failure by blast
    then show ?thesis by (auto simp: calculate_paper_influence_def)
  qed
  with calculate_never_raises show ?thesis by blast
qed

theorem influence_failures_give_empty_witness:
  "\<not> has_paper five_citers_store ''Z''
   \<and> calculate_paper_influence five_citers_store 0 ''Z'' = Inr None
   \<and> fails_at (five_citers_store\<lparr>fails_at := Some 3\<rparr>) = Some 3
   \<and> calculate_paper_influence (five_citers_store\<lparr>fails_at := Some 3\<rparr>) 0 ''P'' = Inr None"
proof -
  have a: "\<not> has_paper five_citers_store ''Z''" by code_simp
  have b: "\<exists>k<4. fails_at (five_citers_store\<lparr>fails_at := Some 3\<rparr>) = Some k"
    by (intro exI [of _ 3]) simp
  from influence_failures_give_empty [of five_citers_store 0 "''Z''"] a
       influence_failures_give_empty [of "five_citers_store\<lparr>fails_at := Some 3\<rparr>" 0 "''P''"] b
  show ?thesis by simp
qed

text \<open>
  C3 as stated fails: for a paper id with no row the body raises the "Paper not found"
  error, and for a store that fails at the second query it raises the store's error, but
  in both cases the call itself returns the empty dictionary instead of failing.
\<close>

theorem influence_not_found_returns_empty:
  "influence_body single_citation_store 0 ''Z'' = Inl (ValueError ''Paper not found: Z'')
   \<and> calculate_paper_influence single_citation_store 0 ''Z'' = Inr None
   \<and> influence_body (single_citation_store\<lparr>fails_at := Some 1\<rparr>) 0 ''A'' = Inl StoreFailure
   \<and> calculate_paper_influence (single_citation_store\<lparr>fails_at := Some 1\<rparr>) 0 ''A'' = Inr None"
  by code_simp

end
